theory Spec2Isabelle
  imports Complex_Main "HOL-Library.Sublist"
begin

section \<open>Strings\<close>

text \<open>
  A Python \<open>str\<close> is a sequence of Unicode code points, so a string is a list of
  code points (natural numbers). \<open>str\<close> turns an ASCII literal into such a list.
  Time stamps are rationals: the arithmetic of the source is read exactly.
\<close>

type_synonym pystr = "nat list"

definition str :: "string \<Rightarrow> pystr" where
  "str s = map of_char s"

text \<open>
  \<open>str.isspace\<close>: the code points that \<open>str.strip()\<close> removes, that \<open>str.split()\<close>
  separates at and that \<open>\s\<close> matches in a \<open>re\<close> pattern over \<open>str\<close>.
\<close>

definition isspace :: "nat \<Rightarrow> bool" where
  "isspace c = ((9 \<le> c \<and> c \<le> 13) \<or> (28 \<le> c \<and> c \<le> 32) \<or> c = 133 \<or> c = 160
     \<or> c = 5760 \<or> (8192 \<le> c \<and> c \<le> 8202) \<or> c = 8232 \<or> c = 8233 \<or> c = 8239
     \<or> c = 8287 \<or> c = 12288)"

text \<open>The character class \<open>[.!?]\<close> of the sentence pattern.\<close>

definition is_terminator :: "nat \<Rightarrow> bool" where
  "is_terminator c = (c = 46 \<or> c = 33 \<or> c = 63)"

text \<open>\<open>s.strip()\<close>\<close>

definition strip :: "pystr \<Rightarrow> pystr" where
  "strip s = rev (dropWhile isspace (rev (dropWhile isspace s)))"

text \<open>
  \<open>re.split(r'(?<=[.!?])\s+', s)\<close>: a separator is a maximal run of white space that
  follows a terminator. The first argument holds the piece read so far, reversed.
\<close>

function (sequential) re_split :: "pystr \<Rightarrow> pystr \<Rightarrow> pystr list" where
  "re_split cur [] = [rev cur]"
| "re_split cur [c] = [rev (c # cur)]"
| "re_split cur (c # d # cs) =
     (if is_terminator c \<and> isspace d
      then rev (c # cur) # re_split [] (dropWhile isspace cs)
      else re_split (c # cur) (d # cs))"
  by pat_completeness auto
termination
proof (relation "measure (\<lambda>(cur, s). length s)")
  fix cur :: pystr and c d :: nat and cs :: pystr
  have "length (dropWhile isspace cs) \<le> length cs"
    by (rule length_dropWhile_le)
  then show "((([] :: pystr), dropWhile isspace cs), (cur, c # d # cs))
               \<in> measure (\<lambda>(cur, s). length s)"
    by simp
qed auto

text \<open>\<open>s.split()\<close>: the maximal runs of code points that are not white space.\<close>

fun split_aux :: "pystr \<Rightarrow> pystr \<Rightarrow> pystr list" where
  "split_aux cur [] = (if cur = [] then [] else [rev cur])"
| "split_aux cur (c # cs) =
     (if isspace c then (if cur = [] then [] else [rev cur]) @ split_aux [] cs
      else split_aux (c # cur) cs)"

definition split_ws :: "pystr \<Rightarrow> pystr list" where
  "split_ws s = split_aux [] s"

text \<open>\<open>' '.join(ws)\<close>\<close>

fun join_sp :: "pystr list \<Rightarrow> pystr" where
  "join_sp [] = []"
| "join_sp [w] = w"
| "join_sp (w # v # ws) = w @ 32 # join_sp (v # ws)"

text \<open>\<open>a in b\<close> on strings: \<open>a\<close> occurs in \<open>b\<close> as a contiguous piece.\<close>

fun str_contains :: "pystr \<Rightarrow> pystr \<Rightarrow> bool" where
  "str_contains a [] = (a = [])"
| "str_contains a (c # cs) = (prefix a (c # cs) \<or> str_contains a cs)"

section \<open>Errors\<close>

datatype py_error = ZeroDivisionError

text \<open>\<open>a / b\<close> on numbers: true division, which raises on a zero divisor.\<close>

definition truediv :: "rat \<Rightarrow> rat \<Rightarrow> py_error + rat" where
  "truediv a b = (if b = 0 then Inl ZeroDivisionError else Inr (a / b))"

text \<open>\<open>int(x)\<close> on a number: truncation towards zero.\<close>

definition py_int :: "rat \<Rightarrow> int" where
  "py_int x = (if 0 \<le> x then \<lfloor>x\<rfloor> else \<lceil>x\<rceil>)"

section \<open>TranscriptionAnalyzer: \<open>_fix_highlight_timestamps\<close>\<close>

text \<open>
  The dictionaries of the transcript (\<open>text\<close>, \<open>start\<close>, \<open>end\<close>) and of a highlight
  (\<open>start\<close>, \<open>end\<close>, \<open>content\<close>), with all their keys present.
\<close>

record segment =
  seg_text :: pystr
  seg_start :: rat
  seg_end :: rat

record highlight =
  hl_start :: rat
  hl_end :: rat
  hl_content :: pystr

text \<open>
  The sentences of a content: split at the pattern after \<open>strip()\<close>, empty pieces
  removed.
\<close>

definition sentences :: "pystr \<Rightarrow> pystr list" where
  "sentences content = filter (\<lambda>s. s \<noteq> []) (re_split [] (strip content))"

text \<open>
  The loop over the transcript, from the state \<open>(start_segment, end_segment)\<close>: the
  start anchor is set once, the end anchor at every match, and the loop is left as
  soon as both are set.
\<close>

fun find_segments ::
  "pystr \<Rightarrow> pystr \<Rightarrow> segment option \<Rightarrow> segment option \<Rightarrow> segment list
     \<Rightarrow> segment option \<times> segment option" where
  "find_segments first_sentence last_sentence start_segment end_segment [] =
     (start_segment, end_segment)"
| "find_segments first_sentence last_sentence start_segment end_segment (seg # segs) =
     (let start_segment' =
            (if str_contains first_sentence (seg_text seg) \<and> start_segment = None
             then Some seg else start_segment);
          end_segment' =
            (if str_contains last_sentence (seg_text seg) then Some seg else end_segment)
      in if start_segment' \<noteq> None \<and> end_segment' \<noteq> None
         then (start_segment', end_segment')
         else find_segments first_sentence last_sentence start_segment' end_segment' segs)"

definition fix_highlight_timestamps :: "highlight \<Rightarrow> segment list \<Rightarrow> highlight" where
  "fix_highlight_timestamps h original_transcription =
     (let ss = sentences (hl_content h) in
      if ss = [] then h
      else
        (case find_segments (hd ss) (last ss) None None original_transcription of
           (start_segment, end_segment) \<Rightarrow>
             (let h1 = (case start_segment of
                          Some s \<Rightarrow> h\<lparr>hl_start := seg_start s\<rparr> | None \<Rightarrow> h)
              in (case end_segment of
                    Some e \<Rightarrow> h1\<lparr>hl_end := seg_end e\<rparr> | None \<Rightarrow> h1))))"

section \<open>VideoProcessor: \<open>SubtitleProcessor._split_subtitle\<close>\<close>

record subtitle =
  sub_start :: rat
  sub_end :: rat
  sub_text :: pystr

text \<open>The body of the loop at offset \<open>i\<close>: one chunk, or the error of a division.\<close>

definition make_chunk :: "subtitle \<Rightarrow> pystr list \<Rightarrow> nat \<Rightarrow> py_error + subtitle" where
  "make_chunk subtitle words i =
     (let duration = sub_end subtitle - sub_start subtitle;
          chunk = take 3 (drop i words);
          chunk_text = join_sp chunk
      in case truediv (of_nat (length chunk)) (of_nat (length words)) of
           Inl e \<Rightarrow> Inl e
         | Inr p \<Rightarrow>
             (case truediv (of_nat i) (of_nat (length words)) of
                Inl e \<Rightarrow> Inl e
              | Inr q \<Rightarrow>
                  (let chunk_duration = duration * p;
                       chunk_start = sub_start subtitle + duration * q;
                       chunk_end = chunk_start + chunk_duration
                   in Inr \<lparr>sub_start = chunk_start, sub_end = chunk_end,
                            sub_text = chunk_text\<rparr>)))"

text \<open>\<open>for i in range(0, len(words), 3)\<close>, from offset \<open>i\<close> on.\<close>

function split_loop :: "subtitle \<Rightarrow> pystr list \<Rightarrow> nat \<Rightarrow> py_error + subtitle list" where
  "split_loop subtitle words i =
     (if i < length words
      then (case make_chunk subtitle words i of
              Inl e \<Rightarrow> Inl e
            | Inr c \<Rightarrow>
                (case split_loop subtitle words (i + 3) of
                   Inl e \<Rightarrow> Inl e
                 | Inr chunks \<Rightarrow> Inr (c # chunks)))
      else Inr [])"
  by pat_completeness auto
termination
  by (relation "measure (\<lambda>(subtitle, words, i). length words - i)") auto

declare split_loop.simps [simp del]

definition split_subtitle :: "subtitle \<Rightarrow> py_error + subtitle list" where
  "split_subtitle subtitle = split_loop subtitle (split_ws (sub_text subtitle)) 0"

text \<open>A word: not empty, and free of white space.\<close>

definition is_word :: "pystr \<Rightarrow> bool" where
  "is_word w = (w \<noteq> [] \<and> (\<forall>c\<in>set w. \<not> isspace c))"

section \<open>VideoProcessor: caption filtering in \<open>process_video\<close>\<close>

text \<open>
  The list comprehension that keeps the captions inside the window, on the global
  time line.
\<close>

fun keep_in_window :: "rat \<Rightarrow> rat \<Rightarrow> subtitle list \<Rightarrow> subtitle list" where
  "keep_in_window start_time end_time [] = []"
| "keep_in_window start_time end_time (s # subtitles) =
     (if sub_start s \<ge> start_time \<and> sub_end s \<le> end_time
      then s # keep_in_window start_time end_time subtitles
      else keep_in_window start_time end_time subtitles)"

text \<open>
  The loop that moves every kept caption to the clip's local time line. The loop
  updates the dictionaries in place; every dictionary of the list is an object of its
  own (made by \<open>_split_subtitle\<close>), so the updated list is the list of updated
  records.
\<close>

fun to_local_time :: "rat \<Rightarrow> subtitle list \<Rightarrow> subtitle list" where
  "to_local_time start_time [] = []"
| "to_local_time start_time (s # subtitles) =
     s\<lparr>sub_start := sub_start s - start_time, sub_end := sub_end s - start_time\<rparr>
       # to_local_time start_time subtitles"

definition trimmed_subtitles :: "rat \<Rightarrow> rat \<Rightarrow> subtitle list \<Rightarrow> subtitle list" where
  "trimmed_subtitles start_time end_time subtitles =
     to_local_time start_time (keep_in_window start_time end_time subtitles)"

section \<open>VideoProcessor: \<open>_crop_to_aspect_ratio\<close>\<close>

text \<open>
  What the function does to the clip: a call of \<open>crop\<close> with four bounds, or the clip
  returned as it is. The clip itself is not part of the model.
\<close>

datatype crop_result = Cropped (x1: int) (y1: int) (x2: int) (y2: int) | Uncropped

definition crop_to_aspect_ratio :: "rat \<Rightarrow> int \<Rightarrow> int \<Rightarrow> py_error + crop_result" where
  "crop_to_aspect_ratio target_aspect_ratio width height =
     (case truediv (of_int width) (of_int height) of
        Inl e \<Rightarrow> Inl e
      | Inr input_aspect_ratio \<Rightarrow>
          if input_aspect_ratio > target_aspect_ratio then
            (let target_width = py_int (of_int height * target_aspect_ratio);
                 crop_x = (width - target_width) div 2
             in Inr (Cropped crop_x 0 (crop_x + target_width) height))
          else if input_aspect_ratio < target_aspect_ratio then
            (case truediv (of_int width) target_aspect_ratio of
               Inl e \<Rightarrow> Inl e
             | Inr q \<Rightarrow>
                 (let target_height = py_int q;
                      crop_y = (height - target_height) div 2
                  in Inr (Cropped 0 crop_y width (crop_y + target_height))))
          else Inr Uncropped)"

text \<open>The part of the source frame that the returned clip shows.\<close>

fun bounds :: "int \<Rightarrow> int \<Rightarrow> crop_result \<Rightarrow> int \<times> int \<times> int \<times> int" where
  "bounds width height (Cropped a b c d) = (a, b, c, d)"
| "bounds width height Uncropped = (0, 0, width, height)"

definition inside_frame :: "int \<Rightarrow> int \<Rightarrow> int \<times> int \<times> int \<times> int \<Rightarrow> bool" where
  "inside_frame width height r =
     (case r of (a, b, c, d) \<Rightarrow>
        0 \<le> a \<and> a \<le> c \<and> c \<le> width \<and> 0 \<le> b \<and> b \<le> d \<and> d \<le> height)"

section \<open>main: \<open>process_highlights\<close>\<close>

text \<open>
  An exception is an instance of \<open>Exception\<close> or of \<open>BaseException\<close> only
  (\<open>KeyboardInterrupt\<close>, \<open>SystemExit\<close>); the handler of the loop names \<open>Exception\<close>.
\<close>

datatype py_exception = PyException (is_Exception: bool) (message: string)

datatype log_line = Saved nat string | Failed nat string

text \<open>
  The state of a run: the world the renderer acts on, the highlights whose \<open>try\<close> block
  was entered, and the log.
\<close>

record 'w run =
  world :: 'w
  attempted :: "highlight list"
  logged :: "log_line list"

text \<open>
  The body of the \<open>try\<close> block (the construction of the processor and
  \<open>process_video\<close>) is the parameter \<open>render\<close>: from the world and a highlight it
  returns the output path or raises, and leaves a new world. The loop runs from
  index \<open>idx\<close>.
\<close>

fun process_from ::
  "('w \<Rightarrow> highlight \<Rightarrow> (py_exception + string) \<times> 'w) \<Rightarrow> nat \<Rightarrow> highlight list
     \<Rightarrow> 'w run \<Rightarrow> (py_exception + unit) \<times> 'w run" where
  "process_from render idx [] st = (Inr (), st)"
| "process_from render idx (h # hs) st =
     (case render (world st) h of
        (Inr output_path, w) \<Rightarrow>
          process_from render (idx + 1) hs
            (st\<lparr>world := w, attempted := attempted st @ [h],
                logged := logged st @ [Saved idx output_path]\<rparr>)
      | (Inl e, w) \<Rightarrow>
          if is_Exception e
          then process_from render (idx + 1) hs
                 (st\<lparr>world := w, attempted := attempted st @ [h],
                     logged := logged st @ [Failed idx (message e)]\<rparr>)
          else (Inl e, st\<lparr>world := w, attempted := attempted st @ [h]\<rparr>))"




section \<open>Example data\<close>

text \<open>A transcript in which one sentence is the text of two segments.\<close>

definition dup_transcript :: "segment list" where
  "dup_transcript =
     [\<lparr>seg_text = str ''Hello.'', seg_start = 0, seg_end = 1\<rparr>,
      \<lparr>seg_text = str ''Bye.'', seg_start = 1, seg_end = 2\<rparr>,
      \<lparr>seg_text = str ''Bye.'', seg_start = 3, seg_end = 4\<rparr>]"

definition dup_highlight :: highlight where
  "dup_highlight = \<lparr>hl_start = 1/2, hl_end = 9/2, hl_content = str ''Hello. Bye.''\<rparr>"

text \<open>A highlight whose only sentence is in no segment, and one without sentences.\<close>

definition unmatched_highlight :: highlight where
  "unmatched_highlight = \<lparr>hl_start = 5, hl_end = 6, hl_content = str ''Nothing here.''\<rparr>"

definition blank_highlight :: highlight where
  "blank_highlight = \<lparr>hl_start = 5, hl_end = 6, hl_content = str ''  ''\<rparr>"

text \<open>
  The transcript of four segments that the prompt template of the analyzer shows, and
  a candidate highlight over its first two segments with approximate time stamps.
\<close>

definition scenario_text1 :: string where
  "scenario_text1 = ''It doesn't matter how high school you take and how high school you are, life is always a way to overcome your year.''"

definition scenario_text2 :: string where
  "scenario_text2 = ''But it doesn't matter how much you get from life, where are you most important conclusions from these gifts in the future?''"

definition scenario_transcript :: "segment list" where
  "scenario_transcript =
     [\<lparr>seg_text = str scenario_text1, seg_start = 5662/100, seg_end = 6512/100\<rparr>,
      \<lparr>seg_text = str scenario_text2, seg_start = 6512/100, seg_end = 7468/100\<rparr>,
      \<lparr>seg_text = str ''What conclusions have I done?'',
         seg_start = 7668/100, seg_end = 7760/100\<rparr>,
      \<lparr>seg_text = str ''Let's find out!'', seg_start = 7770/100, seg_end = 10062/100\<rparr>]"

definition scenario_highlight :: highlight where
  "scenario_highlight =
     \<lparr>hl_start = 5660/100, hl_end = 7470/100,
      hl_content = str (scenario_text1 @ '' '' @ scenario_text2)\<rparr>"

text \<open>A caption of five words over ten seconds, and its two chunks.\<close>

definition five_words :: subtitle where
  "five_words =
     \<lparr>sub_start = 10, sub_end = 20, sub_text = str ''one two three four five''\<rparr>"

definition five_chunks :: "subtitle list" where
  "five_chunks =
     [\<lparr>sub_start = 10, sub_end = 16, sub_text = str ''one two three''\<rparr>,
      \<lparr>sub_start = 16, sub_end = 20, sub_text = str ''four five''\<rparr>]"

text \<open>A caption whose text is white space only.\<close>

definition blank_caption :: subtitle where
  "blank_caption = \<lparr>sub_start = 1, sub_end = 4, sub_text = str ''  ''\<rparr>"

text \<open>Three captions: one inside the window from 5 to 20, one across its end, one before it.\<close>

definition window_captions :: "subtitle list" where
  "window_captions =
     [\<lparr>sub_start = 10, sub_end = 12, sub_text = str ''inside''\<rparr>,
      \<lparr>sub_start = 18, sub_end = 22, sub_text = str ''across''\<rparr>,
      \<lparr>sub_start = 1, sub_end = 3, sub_text = str ''before''\<rparr>]"




section \<open>Timestamp reconciliation\<close>

subsection \<open>The loop over the transcript\<close>

lemma find_app:
  "find P (xs @ ys) = (case find P xs of Some x \<Rightarrow> Some x | None \<Rightarrow> find P ys)"
  by (induction xs) auto

lemma find_none: "\<forall>x\<in>set xs. \<not> P x \<Longrightarrow> find P xs = None"
  by (induction xs) auto

lemma find_some: "find P xs = Some y \<Longrightarrow> y \<in> set xs \<and> P y"
  by (induction xs) (auto split: if_splits)

lemma find_filter_single: "filter P xs = [a] \<Longrightarrow> find P xs = Some a"
  by (induction xs) (auto split: if_splits)

text \<open>Once the start anchor is set, the loop stops at the first match of the last sentence.\<close>

lemma find_segments_started:
  "find_segments f l (Some x) None segs =
     (Some x, find (\<lambda>s. str_contains l (seg_text s)) segs)"
  by (induction segs) (auto simp: Let_def)

text \<open>Before the start anchor is set, the end anchor is overwritten at every match.\<close>

lemma find_segments_prefix:
  "\<forall>s\<in>set pre. \<not> str_contains f (seg_text s) \<Longrightarrow>
   find_segments f l None e (pre @ rest) =
     find_segments f l None
       (case find (\<lambda>s. str_contains l (seg_text s)) (rev pre) of
          Some y \<Rightarrow> Some y | None \<Rightarrow> e) rest"
proof (induction pre arbitrary: e)
  case Nil
  then show ?case by simp
next
  case (Cons seg pre)
  then show ?case
    by (simp add: Let_def find_app split: option.splits)
qed

lemma find_segments_no_start:
  assumes "\<forall>s\<in>set tr. \<not> str_contains f (seg_text s)"
  shows "find_segments f l None None tr =
           (None, find (\<lambda>s. str_contains l (seg_text s)) (rev tr))"
  using find_segments_prefix [OF assms, of l None "[]"]
  by (simp split: option.splits)

lemma find_segments_at_start:
  assumes pre: "\<forall>s\<in>set pre. \<not> str_contains f (seg_text s)"
    and x: "str_contains f (seg_text x)"
  shows "find_segments f l None None (pre @ x # post) =
           (Some x,
            case find (\<lambda>s. str_contains l (seg_text s)) (x # rev pre) of
              Some e \<Rightarrow> Some e
            | None \<Rightarrow> find (\<lambda>s. str_contains l (seg_text s)) post)"
  using find_segments_prefix [OF pre, of l None "x # post"] x
  by (simp add: Let_def find_segments_started split: option.splits)

text \<open>
  Both anchors of the whole loop, with \<open>n\<close> the number of segments before the first
  one that contains the first sentence.
\<close>

lemma find_segments_anchors:
  fixes f l :: pystr and tr :: "segment list"
  defines "n \<equiv> length (takeWhile (\<lambda>s. \<not> str_contains f (seg_text s)) tr)"
  shows "find_segments f l None None tr =
     (find (\<lambda>s. str_contains f (seg_text s)) tr,
      case find (\<lambda>s. str_contains l (seg_text s)) (rev (take (Suc n) tr)) of
        Some e \<Rightarrow> Some e
      | None \<Rightarrow> find (\<lambda>s. str_contains l (seg_text s)) (drop (Suc n) tr))"
proof -
  let ?F = "\<lambda>s. str_contains f (seg_text s)"
  let ?L = "\<lambda>s. str_contains l (seg_text s)"
  define pre where "pre = takeWhile (\<lambda>s. \<not> ?F s) tr"
  define rest where "rest = dropWhile (\<lambda>s. \<not> ?F s) tr"
  have tr: "tr = pre @ rest" by (simp add: pre_def rest_def)
  have pre: "\<forall>s\<in>set pre. \<not> ?F s"
    unfolding pre_def by (auto dest: set_takeWhileD)
  have n: "n = length pre" by (simp add: n_def pre_def)
  show ?thesis
  proof (cases rest)
    case Nil
    then have all: "tr = pre" using tr by simp
    have "find ?F tr = None" unfolding all using pre by (rule find_none)
    moreover have "find_segments f l None None tr = (None, find ?L (rev tr))"
      unfolding all using pre by (rule find_segments_no_start)
    ultimately show ?thesis by (simp add: n all split: option.splits)
  next
    case (Cons x post)
    have "rest \<noteq> []" using Cons by simp
    then have "\<not> \<not> ?F (hd rest)"
      unfolding rest_def using hd_dropWhile by blast
    then have Fx: "?F x" using Cons by simp
    have tr': "tr = pre @ x # post" using tr Cons by simp
    have "find ?F pre = None" using pre by (rule find_none)
    then have findF: "find ?F tr = Some x"
      unfolding tr' using Fx by (simp add: find_app)
    have tk: "take (Suc n) tr = pre @ [x]" unfolding tr' by (simp add: n)
    have dr: "drop (Suc n) tr = post" unfolding tr' by (simp add: n)
    have "find_segments f l None None tr =
            (Some x, case find ?L (x # rev pre) of Some e \<Rightarrow> Some e | None \<Rightarrow> find ?L post)"
      unfolding tr' using pre Fx by (rule find_segments_at_start)
    then show ?thesis
      by (simp add: findF tk dr split: option.splits)
  qed
qed

lemma find_segments_start:
  "fst (find_segments f l None None tr) = find (\<lambda>s. str_contains f (seg_text s)) tr"
  by (simp add: find_segments_anchors)

lemma find_segments_end_some:
  assumes "snd (find_segments f l None None tr) = Some y"
  shows "y \<in> set tr \<and> str_contains l (seg_text y)"
proof -
  let ?L = "\<lambda>s. str_contains l (seg_text s)"
  obtain n where "find ?L (rev (take n tr)) = Some y \<or> find ?L (drop n tr) = Some y"
    using assms by (auto simp: find_segments_anchors split: option.splits)
  then show ?thesis
    by (auto dest!: find_some dest: in_set_takeD in_set_dropD)
qed

lemma find_segments_end_none:
  assumes "snd (find_segments f l None None tr) = None"
  shows "\<forall>s\<in>set tr. \<not> str_contains l (seg_text s)"
proof -
  let ?L = "\<lambda>s. str_contains l (seg_text s)"
  obtain n where a: "find ?L (rev (take n tr)) = None" and b: "find ?L (drop n tr) = None"
    using assms by (auto simp: find_segments_anchors split: option.splits)
  have "set tr = set (take n tr) \<union> set (drop n tr)"
    by (metis append_take_drop_id set_append)
  then show ?thesis
    using a b by (auto simp: find_None_iff)
qed

lemma fix_fields:
  assumes "sentences (hl_content h) \<noteq> []"
  shows "fix_highlight_timestamps h tr =
    h\<lparr>hl_start :=
         (case fst (find_segments (hd (sentences (hl_content h)))
                     (last (sentences (hl_content h))) None None tr) of
            Some s \<Rightarrow> seg_start s | None \<Rightarrow> hl_start h),
       hl_end :=
         (case snd (find_segments (hd (sentences (hl_content h)))
                     (last (sentences (hl_content h))) None None tr) of
            Some e \<Rightarrow> seg_end e | None \<Rightarrow> hl_end h)\<rparr>"
  using assms
  by (simp add: fix_highlight_timestamps_def Let_def split: prod.splits option.splits)

subsection \<open>The example data, evaluated\<close>

lemmas str_eval = str_def sentences_def strip_def isspace_def is_terminator_def

lemma dup_sentences: "sentences (hl_content dup_highlight) = [str ''Hello.'', str ''Bye.'']"
  by (simp add: dup_highlight_def str_eval)

lemma unmatched_sentences:
  "sentences (hl_content unmatched_highlight) = [str ''Nothing here.'']"
  by (simp add: unmatched_highlight_def str_eval)

lemma blank_sentences: "sentences (hl_content blank_highlight) = []"
  by (simp add: blank_highlight_def str_eval)

lemma scenario_sentences:
  "sentences (hl_content scenario_highlight) = [str scenario_text1, str scenario_text2]"
  by (simp add: scenario_highlight_def scenario_text1_def scenario_text2_def str_eval)

subsection \<open>Duplicate sentences\<close>

text \<open>
  C1, as the code has it. For a highlight with at least one sentence, the start becomes
  the start of the earliest segment whose text contains the first sentence (and stays
  as it was when there is none). The end is not always taken from the latest segment
  that contains the last sentence, because the loop is left as soon as both anchors are
  set: with \<open>k\<close> the number of segments before the start anchor, the end becomes the
  end of the latest segment that contains the last sentence among the first \<open>k + 1\<close>
  segments (all segments when there is no start anchor); when there is none among
  them, the end of the earliest such segment after them; and it stays as it was when
  no segment contains the last sentence.
\<close>

theorem fix_timestamps_anchor_rule:
  assumes "sentences (hl_content h) = ss" and "ss \<noteq> []"
    and "k = length (takeWhile (\<lambda>s. \<not> str_contains (hd ss) (seg_text s)) tr)"
  shows "hl_start (fix_highlight_timestamps h tr) =
           (case find (\<lambda>s. str_contains (hd ss) (seg_text s)) tr of
              Some s \<Rightarrow> seg_start s | None \<Rightarrow> hl_start h)
       \<and> hl_end (fix_highlight_timestamps h tr) =
           (case find (\<lambda>s. str_contains (last ss) (seg_text s)) (rev (take (Suc k) tr)) of
              Some e \<Rightarrow> seg_end e
            | None \<Rightarrow>
               (case find (\<lambda>s. str_contains (last ss) (seg_text s)) (drop (Suc k) tr) of
                  Some e \<Rightarrow> seg_end e | None \<Rightarrow> hl_end h))"
proof -
  have ne: "sentences (hl_content h) \<noteq> []" using assms by simp
  show ?thesis
    unfolding fix_fields [OF ne] assms(1) assms(3)
    by (simp add: find_segments_anchors split: option.splits)
qed

theorem fix_timestamps_anchor_rule_witness:
  "sentences (hl_content dup_highlight) = [str ''Hello.'', str ''Bye.'']
   \<and> hl_start (fix_highlight_timestamps dup_highlight dup_transcript) = 0
   \<and> hl_end (fix_highlight_timestamps dup_highlight dup_transcript) = 2"
proof -
  have k: "0 = length (takeWhile
      (\<lambda>s. \<not> str_contains (hd [str ''Hello.'', str ''Bye.'']) (seg_text s)) dup_transcript)"
    by (simp add: dup_transcript_def str_def)
  show ?thesis
    using fix_timestamps_anchor_rule [OF dup_sentences _ k]
    by (simp add: dup_sentences dup_transcript_def str_def)
qed

text \<open>
  The claim as it is written fails on \<open>dup_transcript\<close>: the last sentence is the text
  of the segments at positions 1 and 2, the loop stops at position 1, and the end is 2,
  not the end 4 of the latest matching segment.
\<close>

theorem fix_timestamps_latest_end_counterexample:
  "str_contains (last (sentences (hl_content dup_highlight))) (seg_text (dup_transcript ! 1))
   \<and> str_contains (last (sentences (hl_content dup_highlight))) (seg_text (dup_transcript ! 2))
   \<and> hl_end (fix_highlight_timestamps dup_highlight dup_transcript) = 2
   \<and> seg_end (dup_transcript ! 2) = 4"
  by (simp add: dup_sentences fix_highlight_timestamps_def dup_transcript_def str_def Let_def)

subsection \<open>Unique sentences\<close>

text \<open>
  C2: when exactly one segment of the transcript contains the first sentence (\<open>a\<close>) and
  exactly one contains the last sentence (\<open>b\<close>), the result is the highlight with the
  start of \<open>a\<close> and the end of \<open>b\<close>. On the transcript of four segments, the candidate
  over the first two segments gets the start 56.62 and the end 74.68.
\<close>

theorem fix_timestamps_unique_match:
  "(sentences (hl_content h) = ss \<and> ss \<noteq> []
      \<and> filter (\<lambda>s. str_contains (hd ss) (seg_text s)) tr = [a]
      \<and> filter (\<lambda>s. str_contains (last ss) (seg_text s)) tr = [b]
    \<longrightarrow> fix_highlight_timestamps h tr = h\<lparr>hl_start := seg_start a, hl_end := seg_end b\<rparr>)
   \<and> fix_highlight_timestamps scenario_highlight scenario_transcript
       = scenario_highlight\<lparr>hl_start := 5662/100, hl_end := 7468/100\<rparr>"
proof (intro conjI impI)
  assume asm: "sentences (hl_content h) = ss \<and> ss \<noteq> []
      \<and> filter (\<lambda>s. str_contains (hd ss) (seg_text s)) tr = [a]
      \<and> filter (\<lambda>s. str_contains (last ss) (seg_text s)) tr = [b]"
  let ?fs = "find_segments (hd ss) (last ss) None None tr"
  from asm have ss: "sentences (hl_content h) = ss"
    and a: "filter (\<lambda>s. str_contains (hd ss) (seg_text s)) tr = [a]"
    and b: "filter (\<lambda>s. str_contains (last ss) (seg_text s)) tr = [b]"
    by simp_all
  have ne: "sentences (hl_content h) \<noteq> []" using asm by simp
  have st: "fst ?fs = Some a"
    using find_filter_single [OF a] by (simp add: find_segments_start)
  have "b \<in> set (filter (\<lambda>s. str_contains (last ss) (seg_text s)) tr)"
    unfolding b by simp
  then have "snd ?fs \<noteq> None"
    using find_segments_end_none [of "hd ss" "last ss" tr] by auto
  then obtain y where y: "snd ?fs = Some y" by auto
  from find_segments_end_some [OF y]
  have "y \<in> set (filter (\<lambda>s. str_contains (last ss) (seg_text s)) tr)" by simp
  then have "y = b" unfolding b by simp
  then show "fix_highlight_timestamps h tr = h\<lparr>hl_start := seg_start a, hl_end := seg_end b\<rparr>"
    unfolding fix_fields [OF ne] ss using st y by simp
next
  show "fix_highlight_timestamps scenario_highlight scenario_transcript
       = scenario_highlight\<lparr>hl_start := 5662/100, hl_end := 7468/100\<rparr>"
    by (simp add: scenario_sentences fix_highlight_timestamps_def scenario_transcript_def
          scenario_text1_def scenario_text2_def str_def Let_def)
qed

theorem fix_timestamps_unique_match_witness:
  "sentences (hl_content scenario_highlight) = [str scenario_text1, str scenario_text2]
   \<and> filter (\<lambda>s. str_contains (str scenario_text1) (seg_text s)) scenario_transcript
       = [scenario_transcript ! 0]
   \<and> filter (\<lambda>s. str_contains (str scenario_text2) (seg_text s)) scenario_transcript
       = [scenario_transcript ! 1]
   \<and> fix_highlight_timestamps scenario_highlight scenario_transcript
       = scenario_highlight\<lparr>hl_start := seg_start (scenario_transcript ! 0),
                             hl_end := seg_end (scenario_transcript ! 1)\<rparr>"
proof -
  have a: "filter (\<lambda>s. str_contains (hd [str scenario_text1, str scenario_text2]) (seg_text s))
             scenario_transcript = [scenario_transcript ! 0]"
    by (simp add: scenario_transcript_def scenario_text1_def scenario_text2_def str_def)
  have b: "filter (\<lambda>s. str_contains (last [str scenario_text1, str scenario_text2]) (seg_text s))
             scenario_transcript = [scenario_transcript ! 1]"
    by (simp add: scenario_transcript_def scenario_text1_def scenario_text2_def str_def)
  have "fix_highlight_timestamps scenario_highlight scenario_transcript
       = scenario_highlight\<lparr>hl_start := seg_start (scenario_transcript ! 0),
                             hl_end := seg_end (scenario_transcript ! 1)\<rparr>"
    using fix_timestamps_unique_match
      [of scenario_highlight "[str scenario_text1, str scenario_text2]"
          scenario_transcript "scenario_transcript ! 0" "scenario_transcript ! 1"]
      scenario_sentences a b
    by blast
  then show ?thesis using scenario_sentences a b by simp
qed

subsection \<open>Segment boundaries\<close>

text \<open>
  C3, as the code has it. For a highlight with at least one sentence: when some segment
  of the transcript contains the first sentence, the start of the result is exactly the
  start of a segment of the transcript; when some segment contains the last sentence,
  the end of the result is exactly the end of a segment of the transcript. A boundary
  whose sentence is in no segment is not moved onto a segment boundary (C4).
\<close>

theorem fix_timestamps_on_segment_boundaries:
  assumes "sentences (hl_content h) = ss" and "ss \<noteq> []"
  shows "((\<exists>s\<in>set tr. str_contains (hd ss) (seg_text s)) \<longrightarrow>
            (\<exists>s\<in>set tr. hl_start (fix_highlight_timestamps h tr) = seg_start s))
       \<and> ((\<exists>s\<in>set tr. str_contains (last ss) (seg_text s)) \<longrightarrow>
            (\<exists>s\<in>set tr. hl_end (fix_highlight_timestamps h tr) = seg_end s))"
proof -
  let ?fs = "find_segments (hd ss) (last ss) None None tr"
  have ne: "sentences (hl_content h) \<noteq> []" using assms by simp
  have A: "\<exists>s\<in>set tr. hl_start (fix_highlight_timestamps h tr) = seg_start s"
    if "\<exists>s\<in>set tr. str_contains (hd ss) (seg_text s)"
  proof -
    from that have "find (\<lambda>s. str_contains (hd ss) (seg_text s)) tr \<noteq> None"
      by (auto simp: find_None_iff)
    then obtain x where x: "find (\<lambda>s. str_contains (hd ss) (seg_text s)) tr = Some x"
      by auto
    then have "x \<in> set tr" by (auto dest: find_some)
    moreover have "hl_start (fix_highlight_timestamps h tr) = seg_start x"
      unfolding fix_fields [OF ne] assms(1) using x by (simp add: find_segments_start)
    ultimately show ?thesis by blast
  qed
  have B: "\<exists>s\<in>set tr. hl_end (fix_highlight_timestamps h tr) = seg_end s"
    if "\<exists>s\<in>set tr. str_contains (last ss) (seg_text s)"
  proof -
    from that have "snd ?fs \<noteq> None"
      using find_segments_end_none [of "hd ss" "last ss" tr] by auto
    then obtain y where y: "snd ?fs = Some y" by auto
    then have "y \<in> set tr" by (auto dest: find_segments_end_some)
    moreover have "hl_end (fix_highlight_timestamps h tr) = seg_end y"
      unfolding fix_fields [OF ne] assms(1) using y by simp
    ultimately show ?thesis by blast
  qed
  from A B show ?thesis by blast
qed

theorem fix_timestamps_on_segment_boundaries_witness:
  "sentences (hl_content dup_highlight) = [str ''Hello.'', str ''Bye.'']
   \<and> (\<exists>s\<in>set dup_transcript. str_contains (str ''Hello.'') (seg_text s))
   \<and> (\<exists>s\<in>set dup_transcript.
         hl_start (fix_highlight_timestamps dup_highlight dup_transcript) = seg_start s)
   \<and> (\<exists>s\<in>set dup_transcript. str_contains (str ''Bye.'') (seg_text s))
   \<and> (\<exists>s\<in>set dup_transcript.
         hl_end (fix_highlight_timestamps dup_highlight dup_transcript) = seg_end s)"
proof -
  have a: "\<exists>s\<in>set dup_transcript. str_contains (str ''Hello.'') (seg_text s)"
    by (simp add: dup_transcript_def str_def)
  have b: "\<exists>s\<in>set dup_transcript. str_contains (str ''Bye.'') (seg_text s)"
    by (simp add: dup_transcript_def str_def)
  show ?thesis
    using fix_timestamps_on_segment_boundaries [OF dup_sentences, of dup_transcript] a b
      dup_sentences
    by simp
qed

text \<open>
  The claim as it is written fails on a highlight whose sentence is in no segment: the
  boundaries 5 and 6 stay, and no segment of \<open>dup_transcript\<close> starts at 5 or ends at 6.
\<close>

theorem fix_timestamps_boundary_counterexample:
  "hl_start (fix_highlight_timestamps unmatched_highlight dup_transcript) = 5
   \<and> map seg_start dup_transcript = [0, 1, 3]
   \<and> hl_end (fix_highlight_timestamps unmatched_highlight dup_transcript) = 6
   \<and> map seg_end dup_transcript = [1, 2, 4]"
  by (simp add: unmatched_sentences fix_highlight_timestamps_def dup_transcript_def str_def
        Let_def, simp add: unmatched_highlight_def)

subsection \<open>Unmatched boundaries\<close>

text \<open>
  C4: when no segment contains the first sentence the start is the start of the input,
  when no segment contains the last sentence the end is the end of the input, and a
  highlight whose content has no sentence is returned as it is.
\<close>

theorem fix_timestamps_unmatched_unchanged:
  assumes "sentences (hl_content h) = ss"
  shows "((\<forall>s\<in>set tr. \<not> str_contains (hd ss) (seg_text s)) \<longrightarrow>
            hl_start (fix_highlight_timestamps h tr) = hl_start h)
       \<and> ((\<forall>s\<in>set tr. \<not> str_contains (last ss) (seg_text s)) \<longrightarrow>
            hl_end (fix_highlight_timestamps h tr) = hl_end h)
       \<and> (ss = [] \<longrightarrow> fix_highlight_timestamps h tr = h)"
proof (cases "ss = []")
  case True
  then show ?thesis using assms by (simp add: fix_highlight_timestamps_def)
next
  case False
  let ?fs = "find_segments (hd ss) (last ss) None None tr"
  have ne: "sentences (hl_content h) \<noteq> []" using assms False by simp
  have A: "hl_start (fix_highlight_timestamps h tr) = hl_start h"
    if "\<forall>s\<in>set tr. \<not> str_contains (hd ss) (seg_text s)"
  proof -
    from that have "fst ?fs = None"
      by (simp add: find_segments_start find_None_iff)
    then show ?thesis unfolding fix_fields [OF ne] assms(1) by simp
  qed
  have B: "hl_end (fix_highlight_timestamps h tr) = hl_end h"
    if "\<forall>s\<in>set tr. \<not> str_contains (last ss) (seg_text s)"
  proof -
    have "snd ?fs = None"
    proof (rule ccontr)
      assume "snd ?fs \<noteq> None"
      then obtain y where "snd ?fs = Some y" by auto
      from find_segments_end_some [OF this] that show False by blast
    qed
    then show ?thesis unfolding fix_fields [OF ne] assms(1) by simp
  qed
  from A B False show ?thesis by blast
qed

theorem fix_timestamps_unmatched_unchanged_witness:
  "sentences (hl_content unmatched_highlight) = [str ''Nothing here.'']
   \<and> list_all (\<lambda>s. \<not> str_contains (str ''Nothing here.'') (seg_text s)) dup_transcript
   \<and> hl_start (fix_highlight_timestamps unmatched_highlight dup_transcript)
       = hl_start unmatched_highlight
   \<and> hl_end (fix_highlight_timestamps unmatched_highlight dup_transcript)
       = hl_end unmatched_highlight
   \<and> sentences (hl_content blank_highlight) = []
   \<and> fix_highlight_timestamps blank_highlight dup_transcript = blank_highlight"
proof -
  have a: "\<forall>s\<in>set dup_transcript. \<not> str_contains (str ''Nothing here.'') (seg_text s)"
    by (simp add: dup_transcript_def str_def)
  have b: "list_all (\<lambda>s. \<not> str_contains (str ''Nothing here.'') (seg_text s)) dup_transcript"
    using a by (simp add: list_all_iff)
  show ?thesis
    using fix_timestamps_unmatched_unchanged [OF unmatched_sentences, of dup_transcript]
      fix_timestamps_unmatched_unchanged [OF blank_sentences, of dup_transcript]
      a b unmatched_sentences blank_sentences
    by simp
qed

section \<open>Caption chunking\<close>

subsection \<open>Words and joined words\<close>

lemma split_aux_words:
  "\<forall>c\<in>set cur. \<not> isspace c \<Longrightarrow> \<forall>w\<in>set (split_aux cur s). is_word w"
proof (induction s arbitrary: cur)
  case Nil
  then show ?case by (simp add: is_word_def)
next
  case (Cons a s)
  show ?case
  proof (cases "isspace a")
    case True
    have "\<forall>w\<in>set (split_aux [] s). is_word w"
      using Cons.IH [of "[]"] by simp
    moreover have "cur \<noteq> [] \<Longrightarrow> is_word (rev cur)"
      using Cons.prems by (simp add: is_word_def)
    ultimately show ?thesis using True by auto
  next
    case False
    then have "\<forall>w\<in>set (split_aux (a # cur) s). is_word w"
      using Cons.IH [of "a # cur"] Cons.prems by simp
    then show ?thesis using False by simp
  qed
qed

lemma split_ws_words: "\<forall>w\<in>set (split_ws s). is_word w"
  using split_aux_words [of "[]" s] by (simp add: split_ws_def)

lemma split_aux_word:
  "\<forall>c\<in>set w. \<not> isspace c \<Longrightarrow> split_aux cur (w @ rest) = split_aux (rev w @ cur) rest"
  by (induction w arbitrary: cur) auto

lemma isspace_32: "isspace 32"
  by (simp add: isspace_def)

lemma split_ws_join:
  "\<forall>w\<in>set ws. is_word w \<Longrightarrow> split_ws (join_sp ws) = ws"
proof (induction ws rule: join_sp.induct)
  case 1
  then show ?case by (simp add: split_ws_def)
next
  case (2 w)
  then show ?case
    using split_aux_word [of w "[]" "[]"] by (simp add: split_ws_def is_word_def)
next
  case (3 w v ws)
  then show ?case
    using split_aux_word [of w "[]" "32 # join_sp (v # ws)"]
    by (simp add: split_ws_def is_word_def isspace_32)
qed

lemma join_sp_Cons: "vs \<noteq> [] \<Longrightarrow> join_sp (w # vs) = w @ 32 # join_sp vs"
  by (cases vs) auto

lemma join_sp_append:
  "xs \<noteq> [] \<Longrightarrow> ys \<noteq> [] \<Longrightarrow> join_sp (xs @ ys) = join_sp xs @ 32 # join_sp ys"
proof (induction xs rule: join_sp.induct)
  case 1
  then show ?case by simp
next
  case (2 w)
  then show ?case by (simp add: join_sp_Cons)
next
  case (3 w v ws)
  then show ?case by simp
qed

lemma make_chunk_ok:
  "words \<noteq> [] \<Longrightarrow>
   make_chunk subtitle words i =
     Inr \<lparr>sub_start = sub_start subtitle
             + (sub_end subtitle - sub_start subtitle) * (of_nat i / of_nat (length words)),
          sub_end = sub_start subtitle
             + (sub_end subtitle - sub_start subtitle) * (of_nat i / of_nat (length words))
             + (sub_end subtitle - sub_start subtitle)
               * (of_nat (length (take 3 (drop i words))) / of_nat (length words)),
          sub_text = join_sp (take 3 (drop i words))\<rparr>"
  by (simp add: make_chunk_def truediv_def Let_def)

lemma split_loop_total:
  "words \<noteq> [] \<Longrightarrow> \<exists>chunks. split_loop subtitle words i = Inr chunks"
proof (induction subtitle words i rule: split_loop.induct)
  case (1 subtitle words i)
  show ?case
  proof (cases "i < length words")
    case True
    obtain c where c: "make_chunk subtitle words i = Inr c"
      using make_chunk_ok [OF "1.prems"] by blast
    from "1.IH" [OF True c "1.prems"] obtain chunks
      where "split_loop subtitle words (i + 3) = Inr chunks" by blast
    then show ?thesis
      using True c by (subst split_loop.simps) simp
  next
    case False
    then show ?thesis by (subst split_loop.simps) simp
  qed
qed

lemma split_loop_step:
  assumes "split_loop subtitle words i = Inr chunks" and "i < length words"
  obtains c rest where "make_chunk subtitle words i = Inr c"
    and "split_loop subtitle words (i + 3) = Inr rest" and "chunks = c # rest"
  using assms
  by (subst (asm) split_loop.simps) (auto split: sum.splits)

lemma split_loop_done:
  assumes "split_loop subtitle words i = Inr chunks" and "\<not> i < length words"
  shows "chunks = []"
  using assms by (subst (asm) split_loop.simps) simp

lemma split_loop_length:
  "split_loop subtitle words i = Inr chunks \<Longrightarrow>
   length chunks = (length words - i + 2) div 3"
proof (induction subtitle words i arbitrary: chunks rule: split_loop.induct)
  case (1 subtitle words i)
  show ?case
  proof (cases "i < length words")
    case True
    from "1.prems" True obtain c rest where c: "make_chunk subtitle words i = Inr c"
      and rest: "split_loop subtitle words (i + 3) = Inr rest" and eq: "chunks = c # rest"
      by (rule split_loop_step)
    have IH: "length rest = (length words - (i + 3) + 2) div 3"
      using "1.IH" [OF True c rest] .
    have "(length words - i + 2) div 3 = Suc ((length words - (i + 3) + 2) div 3)"
    proof (cases "i + 3 \<le> length words")
      case True
      then have "length words - i + 2 = (length words - (i + 3) + 2) + 3" by arith
      then have "(length words - i + 2) div 3 = ((length words - (i + 3) + 2) + 3) div 3"
        by (rule arg_cong)
      also have "\<dots> = Suc ((length words - (i + 3) + 2) div 3)" by simp
      finally show ?thesis .
    next
      case False
      with \<open>i < length words\<close> have "length words - i = 1 \<or> length words - i = 2"
        by arith
      moreover have "length words - (i + 3) = 0" using False by arith
      ultimately show ?thesis by auto
    qed
    then show ?thesis using IH eq by simp
  next
    case False
    then show ?thesis using split_loop_done [OF "1.prems"] by simp
  qed
qed

lemma split_loop_durations:
  assumes "words \<noteq> []"
  shows "split_loop subtitle words i = Inr chunks \<Longrightarrow>
   (\<Sum>c\<leftarrow>chunks. sub_end c - sub_start c) =
     (sub_end subtitle - sub_start subtitle) * (of_nat (length words - i) / of_nat (length words))"
  using assms
proof (induction subtitle words i arbitrary: chunks rule: split_loop.induct)
  case (1 subtitle words i)
  show ?case
  proof (cases "i < length words")
    case True
    from "1.prems"(1) True obtain c rest where c: "make_chunk subtitle words i = Inr c"
      and rest: "split_loop subtitle words (i + 3) = Inr rest" and eq: "chunks = c # rest"
      by (rule split_loop_step)
    have IH: "(\<Sum>c\<leftarrow>rest. sub_end c - sub_start c) =
     (sub_end subtitle - sub_start subtitle)
       * (of_nat (length words - (i + 3)) / of_nat (length words))"
      using "1.IH" [OF True c rest "1.prems"(2)] .
    have dc: "sub_end c - sub_start c =
       (sub_end subtitle - sub_start subtitle)
         * (of_nat (min (length words - i) 3) / of_nat (length words))"
      using c make_chunk_ok [OF "1.prems"(2), of subtitle i] by auto
    have "min (length words - i) 3 + (length words - (i + 3)) = length words - i"
      by arith
    then have "(of_nat (min (length words - i) 3) :: rat) + of_nat (length words - (i + 3))
               = of_nat (length words - i)"
      by (metis of_nat_add)
    then show ?thesis
      unfolding eq using IH dc
      by (simp add: distrib_left [symmetric] add_divide_distrib [symmetric] del: of_nat_min)
  next
    case False
    then show ?thesis using split_loop_done [OF "1.prems"(1)] by simp
  qed
qed

lemma split_loop_texts:
  "split_loop subtitle words i = Inr chunks \<Longrightarrow>
   \<forall>c\<in>set chunks. \<exists>j. sub_text c = join_sp (take 3 (drop j words))"
proof (induction subtitle words i arbitrary: chunks rule: split_loop.induct)
  case (1 subtitle words i)
  show ?case
  proof (cases "i < length words")
    case True
    from "1.prems" True obtain c rest where c: "make_chunk subtitle words i = Inr c"
      and rest: "split_loop subtitle words (i + 3) = Inr rest" and eq: "chunks = c # rest"
      by (rule split_loop_step)
    have "words \<noteq> []" using True by auto
    then have "sub_text c = join_sp (take 3 (drop i words))"
      using c make_chunk_ok [of words subtitle i] by auto
    then show ?thesis
      using "1.IH" [OF True c rest] eq by auto
  next
    case False
    then show ?thesis using split_loop_done [OF "1.prems"] by simp
  qed
qed

lemma split_loop_join:
  "split_loop subtitle words i = Inr chunks \<Longrightarrow>
   join_sp (map sub_text chunks) = join_sp (drop i words)"
proof (induction subtitle words i arbitrary: chunks rule: split_loop.induct)
  case (1 subtitle words i)
  show ?case
  proof (cases "i < length words")
    case True
    from "1.prems" True obtain c rest where c: "make_chunk subtitle words i = Inr c"
      and rest: "split_loop subtitle words (i + 3) = Inr rest" and eq: "chunks = c # rest"
      by (rule split_loop_step)
    have "words \<noteq> []" using True by auto
    then have tc: "sub_text c = join_sp (take 3 (drop i words))"
      using c make_chunk_ok [of words subtitle i] by auto
    have IH: "join_sp (map sub_text rest) = join_sp (drop (i + 3) words)"
      using "1.IH" [OF True c rest] .
    have len: "length rest = (length words - (i + 3) + 2) div 3"
      using split_loop_length [OF rest] .
    have split: "drop i words = take 3 (drop i words) @ drop (i + 3) words"
      by (metis add.commute append_take_drop_id drop_drop)
    show ?thesis
    proof (cases "i + 3 < length words")
      case False
      then have "rest = []" using len by simp
      moreover have "take 3 (drop i words) = drop i words" using False by simp
      ultimately show ?thesis using eq tc by simp
    next
      case more: True
      then have "rest \<noteq> []" using len by auto
      then have "join_sp (map sub_text chunks)
                   = sub_text c @ 32 # join_sp (map sub_text rest)"
        unfolding eq by (simp add: join_sp_Cons)
      also have "\<dots> = join_sp (take 3 (drop i words)) @ 32 # join_sp (drop (i + 3) words)"
        using tc IH by simp
      also have "\<dots> = join_sp (take 3 (drop i words) @ drop (i + 3) words)"
        using True more by (subst join_sp_append) auto
      finally show ?thesis using split by simp
    qed
  next
    case False
    then show ?thesis using split_loop_done [OF "1.prems"] by simp
  qed
qed

lemma ceiling_third: "\<lceil>(of_nat n :: rat) / 3\<rceil> = int ((n + 2) div 3)"
proof -
  have "\<lceil>(of_nat n :: rat) / 3\<rceil> = \<lceil>(of_int (int n) :: rat) / of_int 3\<rceil>" by simp
  also have "\<dots> = - (- int n div 3)" by (rule ceiling_divide_eq_div)
  also have "\<dots> = int ((n + 2) div 3)" by (simp add: zdiv_int)
  finally show ?thesis .
qed

subsection \<open>The example data, evaluated\<close>

lemma five_words_words:
  "split_ws (sub_text five_words)
     = [str ''one'', str ''two'', str ''three'', str ''four'', str ''five'']"
  by (simp add: five_words_def split_ws_def str_def isspace_def)

lemma five_words_chunks: "split_subtitle five_words = Inr five_chunks"
  unfolding split_subtitle_def five_words_words
  by (simp add: split_loop.simps make_chunk_def truediv_def Let_def five_words_def
        five_chunks_def str_def)

subsection \<open>The chunks of a caption\<close>

text \<open>
  C5: a caption source whose text has \<open>N \<ge> 1\<close> words gives a chunk list (no error) of
  \<open>\<lceil>N / 3\<rceil>\<close> chunks, the text of every chunk has at most three words, and the durations
  \<open>end - start\<close> of the chunks add up to the duration of the source, in exact rational
  arithmetic.
\<close>

theorem split_subtitle_chunks:
  assumes "split_ws (sub_text subtitle) = words" and "1 \<le> length words"
  shows "\<exists>chunks. split_subtitle subtitle = Inr chunks
     \<and> int (length chunks) = \<lceil>(of_nat (length words) :: rat) / 3\<rceil>
     \<and> (\<forall>c\<in>set chunks. length (split_ws (sub_text c)) \<le> 3)
     \<and> (\<Sum>c\<leftarrow>chunks. sub_end c - sub_start c) = sub_end subtitle - sub_start subtitle"
proof -
  have ne: "words \<noteq> []" using assms(2) by auto
  obtain chunks where chunks: "split_loop subtitle words 0 = Inr chunks"
    using split_loop_total [OF ne] by blast
  have ret: "split_subtitle subtitle = Inr chunks"
    unfolding split_subtitle_def assms(1) by (rule chunks)
  have "length chunks = (length words + 2) div 3"
    using split_loop_length [OF chunks] by simp
  then have len: "int (length chunks) = \<lceil>(of_nat (length words) :: rat) / 3\<rceil>"
    by (simp only: ceiling_third)
  have words: "\<forall>w\<in>set words. is_word w"
    using split_ws_words [of "sub_text subtitle"] by (simp only: assms(1))
  have three: "\<forall>c\<in>set chunks. length (split_ws (sub_text c)) \<le> 3"
  proof
    fix c assume "c \<in> set chunks"
    then obtain j where j: "sub_text c = join_sp (take 3 (drop j words))"
      using split_loop_texts [OF chunks] by blast
    have "\<forall>w\<in>set (take 3 (drop j words)). is_word w"
      using words by (auto dest: in_set_takeD in_set_dropD)
    then have "split_ws (sub_text c) = take 3 (drop j words)"
      unfolding j by (rule split_ws_join)
    then show "length (split_ws (sub_text c)) \<le> 3" by simp
  qed
  have "(of_nat (length words - 0) :: rat) / of_nat (length words) = 1"
    using ne by simp
  then have dur: "(\<Sum>c\<leftarrow>chunks. sub_end c - sub_start c) = sub_end subtitle - sub_start subtitle"
    using split_loop_durations [OF ne chunks] by (simp only: mult_1_right)
  show ?thesis
  proof (intro exI conjI)
    show "split_subtitle subtitle = Inr chunks" by (rule ret)
    show "int (length chunks) = \<lceil>(of_nat (length words) :: rat) / 3\<rceil>" by (rule len)
    show "\<forall>c\<in>set chunks. length (split_ws (sub_text c)) \<le> 3" by (rule three)
    show "(\<Sum>c\<leftarrow>chunks. sub_end c - sub_start c) = sub_end subtitle - sub_start subtitle"
      by (rule dur)
  qed
qed

theorem split_subtitle_chunks_witness:
  "length (split_ws (sub_text five_words)) = 5
   \<and> split_subtitle five_words = Inr five_chunks
   \<and> int (length five_chunks) = \<lceil>(5 :: rat) / 3\<rceil>
   \<and> list_all (\<lambda>c. length (split_ws (sub_text c)) \<le> 3) five_chunks
   \<and> (\<Sum>c\<leftarrow>five_chunks. sub_end c - sub_start c) = sub_end five_words - sub_start five_words"
proof -
  have n: "1 \<le> length [str ''one'', str ''two'', str ''three'', str ''four'', str ''five'']"
    by simp
  from split_subtitle_chunks [OF five_words_words n]
  obtain chunks where "split_subtitle five_words = Inr chunks"
    and "int (length chunks) = \<lceil>(of_nat 5 :: rat) / 3\<rceil>"
    and "\<forall>c\<in>set chunks. length (split_ws (sub_text c)) \<le> 3"
    and "(\<Sum>c\<leftarrow>chunks. sub_end c - sub_start c) = sub_end five_words - sub_start five_words"
    by auto
  moreover from this have "chunks = five_chunks"
    by (simp add: five_words_chunks)
  ultimately show ?thesis
    by (simp add: five_words_words five_words_chunks list_all_iff)
qed

subsection \<open>The texts of the chunks\<close>

text \<open>
  C6, as the code has it. The text of a chunk is its words joined by single spaces, so
  it is the chunk texts joined by single spaces (not concatenated) that give back the
  words of the source text joined by single spaces. That is the source text itself
  whenever the source text is a list of words joined by single spaces.
\<close>

theorem split_subtitle_joined_texts:
  "\<exists>chunks. split_subtitle subtitle = Inr chunks
     \<and> join_sp (map sub_text chunks) = join_sp (split_ws (sub_text subtitle))
     \<and> (list_all is_word ws \<and> sub_text subtitle = join_sp ws
          \<longrightarrow> join_sp (map sub_text chunks) = sub_text subtitle)"
proof -
  let ?words = "split_ws (sub_text subtitle)"
  have "\<exists>chunks. split_loop subtitle ?words 0 = Inr chunks"
  proof (cases "?words = []")
    case True
    then show ?thesis by (subst split_loop.simps) simp
  next
    case False
    then show ?thesis by (rule split_loop_total)
  qed
  then obtain chunks where chunks: "split_loop subtitle ?words 0 = Inr chunks" by blast
  have ret: "split_subtitle subtitle = Inr chunks"
    using chunks by (simp add: split_subtitle_def)
  have joined: "join_sp (map sub_text chunks) = join_sp ?words"
    using split_loop_join [OF chunks] by simp
  have "join_sp (map sub_text chunks) = sub_text subtitle"
    if "list_all is_word ws \<and> sub_text subtitle = join_sp ws"
  proof -
    from that have "?words = ws"
      using split_ws_join [of ws] by (simp add: list_all_iff)
    then show ?thesis using joined that by simp
  qed
  with ret joined show ?thesis by blast
qed

theorem split_subtitle_joined_texts_witness:
  "split_subtitle five_words = Inr five_chunks
   \<and> list_all is_word [str ''one'', str ''two'', str ''three'', str ''four'', str ''five'']
   \<and> sub_text five_words
       = join_sp [str ''one'', str ''two'', str ''three'', str ''four'', str ''five'']
   \<and> join_sp (map sub_text five_chunks) = sub_text five_words"
proof -
  have w: "list_all is_word [str ''one'', str ''two'', str ''three'', str ''four'', str ''five'']"
    by (simp add: is_word_def str_def isspace_def)
  have t: "sub_text five_words
       = join_sp [str ''one'', str ''two'', str ''three'', str ''four'', str ''five'']"
    by (simp add: five_words_def str_def)
  from split_subtitle_joined_texts
    [of five_words "[str ''one'', str ''two'', str ''three'', str ''four'', str ''five'']"]
  obtain chunks where "split_subtitle five_words = Inr chunks"
    and "list_all is_word [str ''one'', str ''two'', str ''three'', str ''four'', str ''five'']
         \<and> sub_text five_words
              = join_sp [str ''one'', str ''two'', str ''three'', str ''four'', str ''five'']
         \<longrightarrow> join_sp (map sub_text chunks) = sub_text five_words"
    by blast
  then have "join_sp (map sub_text five_chunks) = sub_text five_words"
    using w t by (simp add: five_words_chunks)
  then show ?thesis using w t five_words_chunks by simp
qed

text \<open>
  The claim as it is written fails on the caption of five words: the concatenation of
  the two chunk texts has no space between \<open>three\<close> and \<open>four\<close>.
\<close>

theorem split_subtitle_concat_counterexample:
  "split_subtitle five_words = Inr five_chunks
   \<and> concat (map sub_text five_chunks) = str ''one two threefour five''
   \<and> sub_text five_words = str ''one two three four five''
   \<and> concat (map sub_text five_chunks) \<noteq> sub_text five_words"
  by (simp add: five_words_chunks) (simp add: five_chunks_def five_words_def str_def)

subsection \<open>No words\<close>

text \<open>
  C10: a caption source whose text has no words (empty or white space only) gives the
  empty chunk list and no error: the loop body, which divides by the number of words,
  is never entered.
\<close>

theorem split_subtitle_no_words:
  "split_ws (sub_text subtitle) = [] \<Longrightarrow> split_subtitle subtitle = Inr []"
  by (simp add: split_subtitle_def split_loop.simps)

theorem split_subtitle_no_words_witness:
  "split_ws (sub_text blank_caption) = [] \<and> split_subtitle blank_caption = Inr []"
proof -
  have h: "split_ws (sub_text blank_caption) = []"
    by (simp add: blank_caption_def split_ws_def str_def isspace_def)
  show ?thesis using h split_subtitle_no_words [OF h] by simp
qed

section \<open>Caption filtering\<close>

lemma keep_in_window_filter:
  "keep_in_window start_time end_time subtitles =
     filter (\<lambda>s. start_time \<le> sub_start s \<and> sub_end s \<le> end_time) subtitles"
  by (induction subtitles) auto

lemma to_local_time_map:
  "to_local_time start_time subtitles =
     map (\<lambda>s. s\<lparr>sub_start := sub_start s - start_time, sub_end := sub_end s - start_time\<rparr>)
       subtitles"
  by (induction subtitles) auto

text \<open>
  C7: the captions kept for a highlight are exactly those that start at or after
  \<open>start_time\<close> and end at or before \<open>end_time\<close>, both tested on the global time line,
  each then moved by \<open>start_time\<close>. A kept caption keeps its text and its duration;
  every other caption is left out as a whole. For the window from 5 to 20, the caption
  from 10 to 12 is kept and starts at 5 locally, and the captions from 18 to 22 and
  from 1 to 3 are left out.
\<close>

theorem trimmed_subtitles_window:
  "trimmed_subtitles start_time end_time subtitles =
     map (\<lambda>s. s\<lparr>sub_start := sub_start s - start_time, sub_end := sub_end s - start_time\<rparr>)
       (filter (\<lambda>s. start_time \<le> sub_start s \<and> sub_end s \<le> end_time) subtitles)
   \<and> (\<forall>r\<in>set (trimmed_subtitles start_time end_time subtitles).
        \<exists>s\<in>set subtitles.
          start_time \<le> sub_start s \<and> sub_end s \<le> end_time
          \<and> sub_start r = sub_start s - start_time \<and> sub_end r = sub_end s - start_time
          \<and> sub_end r - sub_start r = sub_end s - sub_start s \<and> sub_text r = sub_text s)
   \<and> trimmed_subtitles 5 20 window_captions
       = [\<lparr>sub_start = 5, sub_end = 7, sub_text = str ''inside''\<rparr>]"
proof (intro conjI)
  show eq: "trimmed_subtitles start_time end_time subtitles =
     map (\<lambda>s. s\<lparr>sub_start := sub_start s - start_time, sub_end := sub_end s - start_time\<rparr>)
       (filter (\<lambda>s. start_time \<le> sub_start s \<and> sub_end s \<le> end_time) subtitles)"
    by (simp add: trimmed_subtitles_def keep_in_window_filter to_local_time_map)
  show "\<forall>r\<in>set (trimmed_subtitles start_time end_time subtitles).
        \<exists>s\<in>set subtitles.
          start_time \<le> sub_start s \<and> sub_end s \<le> end_time
          \<and> sub_start r = sub_start s - start_time \<and> sub_end r = sub_end s - start_time
          \<and> sub_end r - sub_start r = sub_end s - sub_start s \<and> sub_text r = sub_text s"
    unfolding eq by auto
  show "trimmed_subtitles 5 20 window_captions
       = [\<lparr>sub_start = 5, sub_end = 7, sub_text = str ''inside''\<rparr>]"
    by (simp add: trimmed_subtitles_def window_captions_def)
qed

theorem trimmed_subtitles_window_witness:
  "trimmed_subtitles 5 20 window_captions
     = [\<lparr>sub_start = 10 - 5, sub_end = 12 - 5, sub_text = str ''inside''\<rparr>]
   \<and> list_all (\<lambda>r. sub_end r - sub_start r = 2 \<and> sub_text r = str ''inside'')
        (trimmed_subtitles 5 20 window_captions)"
proof -
  have "trimmed_subtitles 5 20 window_captions =
     map (\<lambda>s. s\<lparr>sub_start := sub_start s - 5, sub_end := sub_end s - 5\<rparr>)
       (filter (\<lambda>s. 5 \<le> sub_start s \<and> sub_end s \<le> 20) window_captions)"
    using trimmed_subtitles_window [of 5 20 window_captions] by blast
  then have "trimmed_subtitles 5 20 window_captions
     = [\<lparr>sub_start = 10 - 5, sub_end = 12 - 5, sub_text = str ''inside''\<rparr>]"
    by (simp add: window_captions_def)
  then show ?thesis by simp
qed

section \<open>Cropping to an aspect ratio\<close>

lemma py_int_nonneg: "0 \<le> x \<Longrightarrow> 0 \<le> py_int x \<and> of_int (py_int x) \<le> x"
  by (simp add: py_int_def)

lemma half_bounds: "(0 :: int) \<le> a \<Longrightarrow> 0 \<le> a div 2 \<and> a div 2 \<le> a"
  by simp

text \<open>The wide case: the frame is cropped in its width.\<close>

lemma crop_wide:
  assumes "0 < height" and "target < of_int width / of_int height"
  shows "crop_to_aspect_ratio target width height =
     Inr (Cropped ((width - py_int (of_int height * target)) div 2) 0
            ((width - py_int (of_int height * target)) div 2
               + py_int (of_int height * target)) height)"
  using assms by (simp add: crop_to_aspect_ratio_def truediv_def Let_def)

lemma crop_tall:
  assumes "0 < width" and "0 < height" and "of_int width / of_int height < target"
  shows "crop_to_aspect_ratio target width height =
     Inr (Cropped 0 ((height - py_int (of_int width / target)) div 2) width
            ((height - py_int (of_int width / target)) div 2
               + py_int (of_int width / target)))"
proof -
  have "(0 :: rat) < of_int width / of_int height" using assms by simp
  then have "target \<noteq> 0" using assms(3) by auto
  then show ?thesis
    using assms by (simp add: crop_to_aspect_ratio_def truediv_def Let_def)
qed

lemma crop_equal:
  assumes "0 < height" and "of_int width / of_int height = target"
  shows "crop_to_aspect_ratio target width height = Inr Uncropped"
  using assms by (auto simp: crop_to_aspect_ratio_def truediv_def)

lemma crop_inside:
  assumes w: "0 < width" and h: "0 < height" and t: "0 \<le> target"
  shows "\<exists>r. crop_to_aspect_ratio target width height = Inr r
             \<and> inside_frame width height (bounds width height r)"
proof -
  consider (wide) "target < of_int width / of_int height"
    | (tall) "of_int width / of_int height < target"
    | (same) "of_int width / of_int height = target"
    by linarith
  then show ?thesis
  proof cases
    case wide
    let ?tw = "py_int (of_int height * target)"
    have nn: "(0 :: rat) \<le> of_int height * target" using h t by simp
    have "of_int height * target < (of_int width :: rat)"
      using wide h by (simp add: pos_less_divide_eq mult.commute)
    then have "(of_int ?tw :: rat) < of_int width"
      using py_int_nonneg [OF nn] by linarith
    then have le: "?tw \<le> width" by simp
    have ge: "0 \<le> ?tw" using py_int_nonneg [OF nn] by simp
    have "0 \<le> (width - ?tw) div 2 \<and> (width - ?tw) div 2 \<le> width - ?tw"
      using le by (intro half_bounds) simp
    then show ?thesis
      using crop_wide [OF h wide] ge h by (simp add: inside_frame_def)
  next
    case tall
    let ?th = "py_int (of_int width / target)"
    have pos: "(0 :: rat) < of_int width / of_int height" using w h by simp
    then have tpos: "0 < target" using tall by linarith
    have nn: "(0 :: rat) \<le> of_int width / target" using w tpos by simp
    have "of_int width < target * (of_int height :: rat)"
      using tall h by (simp add: pos_divide_less_eq)
    then have "of_int width / target < (of_int height :: rat)"
      using tpos by (simp add: pos_divide_less_eq mult.commute)
    then have "(of_int ?th :: rat) < of_int height"
      using py_int_nonneg [OF nn] by linarith
    then have le: "?th \<le> height" by simp
    have ge: "0 \<le> ?th" using py_int_nonneg [OF nn] by simp
    have "0 \<le> (height - ?th) div 2 \<and> (height - ?th) div 2 \<le> height - ?th"
      using le by (intro half_bounds) simp
    then show ?thesis
      using crop_tall [OF w h tall] ge w by (simp add: inside_frame_def)
  next
    case same
    then show ?thesis
      using crop_equal [OF h same] w h by (simp add: inside_frame_def)
  qed
qed

lemma crop_1920_1080:
  "crop_to_aspect_ratio (9 / 16) 1920 1080 = Inr (Cropped 656 0 1263 1080)"
proof -
  have "\<lfloor>(1215 / 2 :: rat)\<rfloor> = 607"
    by (rule floor_unique) simp_all
  then have "py_int (of_int 1080 * (9 / 16)) = 607"
    by (simp add: py_int_def)
  then show ?thesis
    using crop_wide [of 1080 "9 / 16" 1920] by simp
qed

text \<open>
  C8: for a frame of positive width and height whose ratio exceeds the target, the clip
  is cropped to \<open>x1 = (width - int(height * target)) // 2\<close>,
  \<open>x2 = x1 + int(height * target)\<close>, \<open>y1 = 0\<close>, \<open>y2 = height\<close>; for 1920 by 1080 and the
  target 9/16 these are 656, 1263, 0 and 1080; when the ratios are equal the clip is
  returned uncropped, with the bounds of the frame; and in every case the bounds lie
  inside the frame. The last part needs the target ratio not to be negative, as a
  ratio of a width to a height is. Ratios are rationals.
\<close>

theorem crop_to_aspect_ratio_bounds:
  assumes "0 < width" and "0 < height"
  shows "(target < of_int width / of_int height \<longrightarrow>
            crop_to_aspect_ratio target width height =
              Inr (Cropped ((width - py_int (of_int height * target)) div 2) 0
                     ((width - py_int (of_int height * target)) div 2
                        + py_int (of_int height * target)) height))
       \<and> crop_to_aspect_ratio (9 / 16) 1920 1080 = Inr (Cropped 656 0 1263 1080)
       \<and> (of_int width / of_int height = target \<longrightarrow>
            crop_to_aspect_ratio target width height = Inr Uncropped
            \<and> bounds width height Uncropped = (0, 0, width, height))
       \<and> (0 \<le> target \<longrightarrow>
            (\<exists>r. crop_to_aspect_ratio target width height = Inr r
                  \<and> inside_frame width height (bounds width height r)))"
  using crop_wide [OF assms(2), of target width] crop_equal [OF assms(2), of width target]
    crop_inside [OF assms, of target] crop_1920_1080
  by simp

theorem crop_to_aspect_ratio_bounds_witness:
  "(0 :: int) < 1920 \<and> (0 :: int) < 1080
   \<and> (9 / 16 :: rat) < of_int 1920 / of_int 1080
   \<and> crop_to_aspect_ratio (9 / 16) 1920 1080 = Inr (Cropped 656 0 1263 1080)
   \<and> inside_frame 1920 1080 (bounds 1920 1080 (Cropped 656 0 1263 1080))
   \<and> (of_int 1080 / of_int 1920 :: rat) = 9 / 16
   \<and> crop_to_aspect_ratio (9 / 16) 1080 1920 = Inr Uncropped"
proof -
  have a: "(0 :: int) < 1920" and b: "(0 :: int) < 1080" by simp_all
  have wide: "(9 / 16 :: rat) < of_int 1920 / of_int 1080" by simp
  have same: "(of_int 1080 / of_int 1920 :: rat) = 9 / 16" by simp
  have nn: "(0 :: rat) \<le> 9 / 16" by simp
  have "crop_to_aspect_ratio (9 / 16) 1920 1080 = Inr (Cropped 656 0 1263 1080)"
    using crop_to_aspect_ratio_bounds [OF a b, of "9 / 16"] by blast
  moreover have "\<exists>r. crop_to_aspect_ratio (9 / 16) 1920 1080 = Inr r
                  \<and> inside_frame 1920 1080 (bounds 1920 1080 r)"
    using crop_to_aspect_ratio_bounds [OF a b, of "9 / 16"] nn by blast
  moreover have "crop_to_aspect_ratio (9 / 16) 1080 1920 = Inr Uncropped"
    using crop_to_aspect_ratio_bounds [OF b a, of "9 / 16"] same by blast
  ultimately show ?thesis using wide same by auto
qed

section \<open>Rendering the highlights\<close>


text \<open>
  An exception outside \<open>Exception\<close> (a keyboard interrupt, a system exit) is not
  caught: it leaves the loop at once.
\<close>

lemma process_from_not_caught:
  assumes "render (world st) h = (Inl e, w)" and "\<not> is_Exception e"
  shows "process_from render idx (h # hs) st =
           (Inl e, st\<lparr>world := w, attempted := attempted st @ [h]\<rparr>)"
  using assms by simp




end
